theory Spec2Isabelle
  imports Main
begin

section \<open>Time\<close>

text \<open>
  A \<^verbatim>\<open>datetime\<close> is an instant with microsecond resolution, a \<^verbatim>\<open>timedelta\<close> a signed
  number of microseconds; both are unbounded integers here. Subtraction and comparison
  of aware datetimes act on the instants.
\<close>

type_synonym instant = int
type_synonym timedelta = int

definition timedelta_minutes :: "int \<Rightarrow> timedelta" where
  "timedelta_minutes m = m * 60000000"

text \<open>
  The \<^verbatim>\<open>seconds\<close> attribute of a normalised timedelta: the days are split off by floor
  division, so the attribute lies between 0 and 86399 also for a negative difference.
\<close>

definition timedelta_seconds :: "timedelta \<Rightarrow> int" where
  "timedelta_seconds d = (d mod 86400000000) div 1000000"

datatype exn = ValueError | BadTimestamp | DeliveryFailure | RemoteFailure | RetryError

section \<open>RateLimiter\<close>

record RateLimiter =
  calls_per_minute :: int
  calls :: "instant list"

definition RateLimiter_init :: "int \<Rightarrow> RateLimiter" where
  "RateLimiter_init cpm = \<lparr>calls_per_minute = cpm, calls = []\<rparr>"

definition rate_limiter :: RateLimiter where
  "rate_limiter = RateLimiter_init 30"

text \<open>
  \<^verbatim>\<open>min(self.calls)\<close> raises ValueError on an empty list.
\<close>

fun py_min :: "instant list \<Rightarrow> exn + instant" where
  "py_min [] = Inl ValueError"
| "py_min (c # cs) = Inr (fold min cs c)"

text \<open>
  \<^verbatim>\<open>acquire\<close> reads the clock once (\<open>now\<close>), prunes the window, and on a full window
  asks the event loop to sleep \<open>wait_time\<close> seconds before it appends \<open>now\<close>. The result
  is the requested sleep (\<open>None\<close> when the limit was not hit) or the exception raised,
  together with the limiter as the call leaves it.
\<close>

definition acquire :: "RateLimiter \<Rightarrow> instant \<Rightarrow> (exn + int option) \<times> RateLimiter" where
  "acquire self now =
     (let self1 = self\<lparr>calls := filter (\<lambda>t. now - t < timedelta_minutes 1) (calls self)\<rparr> in
      if int (length (calls self1)) \<ge> calls_per_minute self1 then
        (case py_min (calls self1) of
           Inl e \<Rightarrow> (Inl e, self1)
         | Inr oldest \<Rightarrow>
             (let wait_time = 60 - timedelta_seconds (now - oldest) in
              (Inr (Some wait_time), self1\<lparr>calls := calls self1 @ [now]\<rparr>)))
      else (Inr None, self1\<lparr>calls := calls self1 @ [now]\<rparr>))"

text \<open>
  \<^verbatim>\<open>asyncio.sleep(d)\<close> suspends the task for \<open>d\<close> seconds when \<open>d\<close> is positive and
  gives control back at once otherwise: the earliest instant at which the caller of
  \<^verbatim>\<open>acquire\<close> goes on.
\<close>

definition admitted_at :: "instant \<Rightarrow> int option \<Rightarrow> instant" where
  "admitted_at now w = (case w of None \<Rightarrow> now | Some s \<Rightarrow> now + max 0 s * 1000000)"

definition in_window :: "instant \<Rightarrow> instant list \<Rightarrow> instant list" where
  "in_window now cs = filter (\<lambda>t. now - t < timedelta_minutes 1) cs"

section \<open>Retry decorator\<close>

text \<open>
  \<^verbatim>\<open>@retry(stop=stop_after_attempt(3), wait=wait_exponential(multiplier=1, min=4, max=10))\<close>
  calls the decorated coroutine again after every exception it raises, sleeping between
  attempts, until an attempt returns or the attempt with number \<open>max_attempt\<close> has
  raised; it then raises RetryError. Attempt numbers start at 1. The decorated body is
  given as the outcome of each attempt.
\<close>

definition wait_exponential :: "int \<Rightarrow> int \<Rightarrow> int \<Rightarrow> nat \<Rightarrow> int" where
  "wait_exponential multiplier mn mx attempt_number =
     max (max 0 mn) (min (multiplier * 2 ^ (attempt_number - 1)) mx)"

record 'a retried =
  outcome :: "exn + 'a"
  attempts :: nat
  sleeps :: "int list"

function retry_loop :: "nat \<Rightarrow> (nat \<Rightarrow> int) \<Rightarrow> (nat \<Rightarrow> exn + 'a) \<Rightarrow> nat \<Rightarrow> 'a retried" where
  "retry_loop max_attempt wait body n =
     (case body n of
        Inr v \<Rightarrow> \<lparr>outcome = Inr v, attempts = n, sleeps = []\<rparr>
      | Inl e \<Rightarrow>
          if n \<ge> max_attempt then \<lparr>outcome = Inl RetryError, attempts = n, sleeps = []\<rparr>
          else (let r = retry_loop max_attempt wait body (Suc n)
                in r\<lparr>sleeps := wait n # sleeps r\<rparr>))"
  by pat_completeness auto
termination
  by (relation "measure (\<lambda>(max_attempt, wait, body, n). max_attempt - n)") auto

declare retry_loop.simps [simp del]

definition retry :: "(nat \<Rightarrow> exn + 'a) \<Rightarrow> 'a retried" where
  "retry body = retry_loop 3 (wait_exponential 1 4 10) body 1"

section \<open>Remote calls\<close>

type_synonym handle = string

text \<open>
  A post of a feed. \<open>indexed_at\<close> is the instant that
  \<^verbatim>\<open>datetime.fromisoformat(post.post.indexed_at.replace('Z', '+00:00'))\<close> denotes;
  \<open>None\<close> stands for a string that \<^verbatim>\<open>fromisoformat\<close> rejects or that carries no UTC
  offset (the subtraction from the aware \<^verbatim>\<open>current_time\<close> then raises): both
  exceptions leave the loop at the same point.
\<close>

record post =
  uri :: string
  indexed_at :: "instant option"
  text_of :: string

text \<open>
  The answer of \<^verbatim>\<open>get_list\<close>: \<open>None\<close> for a falsy response, otherwise the items, each
  with the handle of its subject when the subject has one. The answer of
  \<^verbatim>\<open>get_author_feed\<close>: \<open>None\<close> for a falsy response, otherwise the feed.
\<close>

type_synonym list_response = "handle option list option"
type_synonym feed_response = "post list option"

text \<open>
  Both coroutines first await \<^verbatim>\<open>rate_limiter.acquire()\<close>. With the module's limiter
  (budget 30) \<^verbatim>\<open>acquire\<close> does not raise (lemma \<open>acquire_never_raises\<close>): it records
  the call and may delay the attempt, nothing more, so the limiter's window is not
  threaded through the scheduler. The body of \<^verbatim>\<open>get_list_members\<close> catches every
  exception of the remote call, logs it and returns the empty list; \<^verbatim>\<open>fetch_posts\<close>
  lets the exception of its remote call through.
\<close>

definition get_list_members_body :: "exn + list_response \<Rightarrow> exn + handle list" where
  "get_list_members_body remote =
     (case remote of
        Inl e \<Rightarrow> Inr []
      | Inr response \<Rightarrow>
          (case response of
             None \<Rightarrow> Inr []
           | Some items \<Rightarrow> if items = [] then Inr [] else Inr (List.map_filter id items)))"

definition get_list_members :: "(nat \<Rightarrow> exn + list_response) \<Rightarrow> handle list retried" where
  "get_list_members get_list = retry (\<lambda>n. get_list_members_body (get_list n))"

definition fetch_posts :: "(handle \<Rightarrow> nat \<Rightarrow> exn + feed_response) \<Rightarrow> handle \<Rightarrow> feed_response retried" where
  "fetch_posts get_author_feed handle = retry (\<lambda>n. get_author_feed handle n)"

section \<open>Watermark history\<close>

type_synonym history = "handle \<rightharpoonup> instant"



section \<open>Polling scheduler\<close>

text \<open>
  What one run of \<^verbatim>\<open>check_subscriptions_updates\<close> meets outside the program: whether
  the channel is found, the outcome of each attempt of the two remote calls, whether
  building and sending the embed of a post completes (\<open>send\<close>), the clock reading and
  the configured age threshold.
\<close>

record env =
  channel_found :: bool
  get_list :: "nat \<Rightarrow> exn + list_response"
  get_author_feed :: "handle \<Rightarrow> nat \<Rightarrow> exn + feed_response"
  send :: "post \<Rightarrow> bool"
  current_time :: instant
  POST_AGE_MINUTES :: int

definition POST_AGE_THRESHOLD :: "env \<Rightarrow> timedelta" where
  "POST_AGE_THRESHOLD e = timedelta_minutes (POST_AGE_MINUTES e)"

datatype log_line =
    ChannelNotFound
  | NoHandlesFound
  | ErrorProcessingUser handle exn
  | ErrorCheckingUpdates exn

text \<open>
  The program's state: the global \<^verbatim>\<open>last_processed_times\<close>, the messages the channel
  has received, and the error and warning lines logged by the scheduler.
  \<^verbatim>\<open>save_history\<close> catches its own exceptions and does not touch the global, so it is
  left out.
\<close>

record state =
  last_processed_times :: history
  channel :: "post list"
  log_lines :: "log_line list"

text \<open>
  The loop over \<^verbatim>\<open>reversed(response.feed)\<close>: the posts sent, and either the final
  \<^verbatim>\<open>newest_time\<close> or the exception that left the loop.
\<close>

fun process_feed :: "env \<Rightarrow> post list \<Rightarrow> instant option \<Rightarrow> post list \<times> (exn + instant option)" where
  "process_feed e [] newest_time = ([], Inr newest_time)"
| "process_feed e (p # rest) newest_time =
     (case indexed_at p of
        None \<Rightarrow> ([], Inl BadTimestamp)
      | Some post_time \<Rightarrow>
          if current_time e - post_time > POST_AGE_THRESHOLD e then process_feed e rest newest_time
          else if (case newest_time of None \<Rightarrow> False | Some n \<Rightarrow> post_time \<le> n)
          then process_feed e rest newest_time
          else
            (let newest_time' =
                   (case newest_time of
                      None \<Rightarrow> Some post_time
                    | Some n \<Rightarrow> if post_time > n then Some post_time else Some n)
             in if send e p
                then (case process_feed e rest newest_time' of (sent, r) \<Rightarrow> (p # sent, r))
                else ([], Inl DeliveryFailure)))"

text \<open>The body of the loop over the handles, with its \<^verbatim>\<open>except Exception\<close>.\<close>

definition process_handle :: "env \<Rightarrow> state \<Rightarrow> handle \<Rightarrow> state" where
  "process_handle e st handle =
     (case outcome (fetch_posts (get_author_feed e) handle) of
        Inl ex \<Rightarrow> st\<lparr>log_lines := log_lines st @ [ErrorProcessingUser handle ex]\<rparr>
      | Inr response \<Rightarrow>
          (case response of
             None \<Rightarrow> st
           | Some feed \<Rightarrow>
               if feed = [] then st
               else
                 (case process_feed e (rev feed) (last_processed_times st handle) of
                    (sent, r) \<Rightarrow>
                      (let st1 = st\<lparr>channel := channel st @ sent\<rparr> in
                       case r of
                         Inl ex \<Rightarrow> st1\<lparr>log_lines := log_lines st1 @ [ErrorProcessingUser handle ex]\<rparr>
                       | Inr None \<Rightarrow> st1
                       | Inr (Some newest_time) \<Rightarrow>
                           st1\<lparr>last_processed_times :=
                                 (last_processed_times st1)(handle \<mapsto> newest_time)\<rparr>))))"

definition check_subscriptions_updates :: "env \<Rightarrow> state \<Rightarrow> state" where
  "check_subscriptions_updates e st =
     (if \<not> channel_found e then st\<lparr>log_lines := log_lines st @ [ChannelNotFound]\<rparr>
      else
        (case outcome (get_list_members (get_list e)) of
           Inl ex \<Rightarrow> st\<lparr>log_lines := log_lines st @ [ErrorCheckingUpdates ex]\<rparr>
         | Inr handles \<Rightarrow>
             if handles = [] then st\<lparr>log_lines := log_lines st @ [NoHandlesFound]\<rparr>
             else foldl (process_handle e) st handles))"

text \<open>Successive runs of the task, each with its own surroundings.\<close>

definition sweeps :: "env list \<Rightarrow> state \<Rightarrow> state" where
  "sweeps es st = foldl (\<lambda>s e. check_subscriptions_updates e s) st es"

section \<open>The filter as the specification words it\<close>

text \<open>
  The specification's Dedup/Age Filter, for comparison with \<open>process_feed\<close>: a post is
  eligible when it is strictly newer than the watermark \<open>W\<close> (any post, when \<open>W\<close> is
  absent) and not older than the age threshold.
\<close>

definition spec_eligible :: "env \<Rightarrow> instant option \<Rightarrow> post \<Rightarrow> bool" where
  "spec_eligible e W p =
     (case indexed_at p of
        None \<Rightarrow> False
      | Some t \<Rightarrow> (case W of None \<Rightarrow> True | Some w \<Rightarrow> t > w)
                  \<and> current_time e - t \<le> POST_AGE_THRESHOLD e)"

text \<open>
  The watermark of a handle covers a post when it is present and not earlier than the
  post's timestamp: the post is not forwarded again by a later run.
\<close>

definition watermark_covers :: "state \<Rightarrow> handle \<Rightarrow> post \<Rightarrow> bool" where
  "watermark_covers st h p =
     (case (last_processed_times st h, indexed_at p) of
        (Some w, Some t) \<Rightarrow> t \<le> w
      | _ \<Rightarrow> False)"

section \<open>Example surroundings\<close>

text \<open>
  Concrete inputs for the instances below: clock readings in minutes, a post indexed at
  a given minute, and surroundings in which the channel is found, the list answers with
  the given handles at the first attempt, and every attempt for a handle has the same
  outcome.
\<close>

definition at_minute :: "int \<Rightarrow> instant" where
  "at_minute m = m * 60000000"

definition post_at :: "string \<Rightarrow> int \<Rightarrow> post" where
  "post_at u m = \<lparr>uri = u, indexed_at = Some (at_minute m), text_of = []\<rparr>"

definition simple_env ::
  "handle list \<Rightarrow> (handle \<Rightarrow> exn + feed_response) \<Rightarrow> (post \<Rightarrow> bool) \<Rightarrow> int \<Rightarrow> int \<Rightarrow> env" where
  "simple_env hs feeds sends now age =
     \<lparr>channel_found = True,
      get_list = (\<lambda>n. Inr (Some (map Some hs))),
      get_author_feed = (\<lambda>h n. feeds h),
      send = sends,
      current_time = at_minute now,
      POST_AGE_MINUTES = age\<rparr>"

definition state0 :: "history \<Rightarrow> state" where
  "state0 h = \<lparr>last_processed_times = h, channel = [], log_lines = []\<rparr>"

definition feed3 :: "post list" where
  "feed3 = [post_at ''p3'' 610, post_at ''p2'' 605, post_at ''p1'' 600]"

definition env_bob :: "post list \<Rightarrow> (post \<Rightarrow> bool) \<Rightarrow> int \<Rightarrow> env" where
  "env_bob feed sends now = simple_env [''bob''] (\<lambda>h. Inr (Some feed)) sends now 60"

definition sends_only_p1 :: "post \<Rightarrow> bool" where
  "sends_only_p1 p = (uri p = ''p1'')"

definition feed2 :: "post list" where
  "feed2 = [post_at ''p2'' 605, post_at ''p1'' 600]"


definition flaky_list :: "nat \<Rightarrow> exn + list_response" where
  "flaky_list n = (if n = 1 then Inl RemoteFailure else Inr (Some [Some ''alice'']))"

definition flaky_feed :: "handle \<Rightarrow> nat \<Rightarrow> exn + feed_response" where
  "flaky_feed h n = (if n = 1 then Inl RemoteFailure else Inr (Some feed2))"

definition feed_same_minute :: "post list" where
  "feed_same_minute = [post_at ''x'' 605, post_at ''y'' 605]"


definition feeds_abc :: "handle \<Rightarrow> exn + feed_response" where
  "feeds_abc h =
     (if h = ''a'' then Inr (Some [post_at ''a1'' 600])
      else if h = ''b'' then Inl RemoteFailure
      else Inr (Some [post_at ''c1'' 602]))"

section \<open>Properties of the rate limiter\<close>

lemma fold_min_Min: "fold min cs (c::int) = Min (set (c # cs))"
  using Min.set_eq_fold [of c cs] by simp

lemma timedelta_seconds_range: "0 \<le> timedelta_seconds d \<and> timedelta_seconds d \<le> 86399"
proof -
  have a: "0 \<le> d mod 86400000000" and b: "d mod 86400000000 \<le> 86399999999"
    using pos_mod_bound [of 86400000000 d] by simp_all
  have "0 \<le> (d mod 86400000000) div 1000000"
    using a by (simp add: pos_imp_zdiv_nonneg_iff)
  moreover have "(d mod 86400000000) div 1000000 \<le> 86399999999 div 1000000"
    using b by (rule zdiv_mono1) simp
  ultimately show ?thesis unfolding timedelta_seconds_def by simp
qed

lemma timedelta_seconds_small:
  assumes "0 \<le> d" "d < 60000000"
  shows "timedelta_seconds d = d div 1000000 \<and> timedelta_seconds d \<le> 59"
proof -
  from assms have m: "d mod 86400000000 = d" by simp
  have "d \<le> 59999999" using assms by simp
  then have "d div 1000000 \<le> 59999999 div 1000000" by (rule zdiv_mono1) simp
  then show ?thesis by (simp add: timedelta_seconds_def m)
qed

lemma acquire_in_window:
  "acquire self now =
     (if calls_per_minute self \<le> int (length (in_window now (calls self))) then
        (case py_min (in_window now (calls self)) of
           Inl e \<Rightarrow> (Inl e, self\<lparr>calls := in_window now (calls self)\<rparr>)
         | Inr oldest \<Rightarrow>
             (Inr (Some (60 - timedelta_seconds (now - oldest))),
              self\<lparr>calls := in_window now (calls self) @ [now]\<rparr>))
      else (Inr None, self\<lparr>calls := in_window now (calls self) @ [now]\<rparr>))"
  by (simp add: acquire_def in_window_def Let_def split: sum.splits)

lemma py_min_nonempty: "cs \<noteq> [] \<Longrightarrow> py_min cs = Inr (Min (set cs))"
  by (cases cs) (simp_all add: fold_min_Min del: set_simps)

lemma acquire_never_raises:
  assumes "0 < calls_per_minute self"
  shows "\<exists>w. acquire self now = (Inr w, self\<lparr>calls := in_window now (calls self) @ [now]\<rparr>)"
proof (cases "calls_per_minute self \<le> int (length (in_window now (calls self)))")
  case True
  with assms have "in_window now (calls self) \<noteq> []" by auto
  then show ?thesis using True by (simp add: acquire_in_window py_min_nonempty)
next
  case False
  then show ?thesis by (simp add: acquire_in_window)
qed

lemma acquire_full:
  assumes "calls_per_minute self \<le> int (length (in_window now (calls self)))"
      and "in_window now (calls self) \<noteq> []"
  shows "acquire self now =
           (Inr (Some (60 - timedelta_seconds (now - Min (set (in_window now (calls self)))))),
            self\<lparr>calls := in_window now (calls self) @ [now]\<rparr>)"
  using assms by (simp add: acquire_in_window py_min_nonempty)

lemma acquire_wait_le_60:
  "fst (acquire self now) = Inr (Some s) \<Longrightarrow> s \<le> 60"
  using timedelta_seconds_range
  by (auto simp: acquire_in_window split: if_splits sum.splits)

lemma oldest_elapsed:
  assumes "in_window now cs \<noteq> []" and "\<forall>t \<in> set cs. t \<le> now"
  shows "0 \<le> now - Min (set (in_window now cs)) \<and> now - Min (set (in_window now cs)) < 60000000"
proof -
  have "Min (set (in_window now cs)) \<in> set (in_window now cs)"
    using assms(1) by (intro Min_in) simp_all
  then show ?thesis using assms(2) by (auto simp: in_window_def timedelta_minutes_def)
qed

lemma whole_seconds_bounds:
  fixes d :: int
  shows "d - 1000000 < (d div 1000000) * 1000000 \<and> (d div 1000000) * 1000000 \<le> d"
proof -
  have "d = (d div 1000000) * 1000000 + d mod 1000000" by simp
  moreover have "0 \<le> d mod 1000000" "d mod 1000000 < 1000000" by simp_all
  ultimately show ?thesis by linarith
qed

lemma admitted_at_bounds:
  assumes "w = None \<or> (\<exists>s. w = Some s \<and> s \<le> 60)"
  shows "now \<le> admitted_at now w \<and> admitted_at now w \<le> now + timedelta_minutes 1"
  using assms by (auto simp: admitted_at_def timedelta_minutes_def max_def)

text \<open>
  Claim C6. With a positive budget, \<^verbatim>\<open>acquire\<close> never raises: it returns with the pruned
  window extended by the call, after a sleep of at most 60 seconds. When the window
  already holds at least the budget and no recorded call lies in the future, it asks
  for a sleep of 60 minus the whole seconds elapsed since the oldest call of the window:
  between 1 and 60 seconds, covering the rest of the oldest call's minute and exceeding
  it by less than one second; the call is then recorded without a second check.
\<close>

theorem C6_acquire_admission:
  assumes budget: "0 < calls_per_minute self"
  shows "(\<exists>w. acquire self now = (Inr w, self\<lparr>calls := in_window now (calls self) @ [now]\<rparr>)
            \<and> now \<le> admitted_at now w \<and> admitted_at now w \<le> now + timedelta_minutes 1)
       \<and> (calls_per_minute self \<le> int (length (in_window now (calls self)))
            \<and> (\<forall>t \<in> set (calls self). t \<le> now) \<longrightarrow>
          (let elapsed = now - Min (set (in_window now (calls self)));
               wait_time = 60 - elapsed div 1000000
           in fst (acquire self now) = Inr (Some wait_time)
              \<and> 1 \<le> wait_time \<and> wait_time \<le> 60
              \<and> timedelta_minutes 1 - elapsed \<le> wait_time * 1000000
              \<and> wait_time * 1000000 < timedelta_minutes 1 - elapsed + 1000000))"
proof (intro conjI impI)
  obtain w where w: "acquire self now = (Inr w, self\<lparr>calls := in_window now (calls self) @ [now]\<rparr>)"
    using acquire_never_raises [OF budget] by blast
  have "w = None \<or> (\<exists>s. w = Some s \<and> s \<le> 60)"
  proof (cases w)
    case None then show ?thesis by simp
  next
    case (Some s)
    with w have "fst (acquire self now) = Inr (Some s)" by simp
    then have "s \<le> 60" by (rule acquire_wait_le_60)
    with Some show ?thesis by simp
  qed
  then have "now \<le> admitted_at now w \<and> admitted_at now w \<le> now + timedelta_minutes 1"
    by (rule admitted_at_bounds)
  with w show "\<exists>w. acquire self now = (Inr w, self\<lparr>calls := in_window now (calls self) @ [now]\<rparr>)
            \<and> now \<le> admitted_at now w \<and> admitted_at now w \<le> now + timedelta_minutes 1"
    by blast
next
  assume h: "calls_per_minute self \<le> int (length (in_window now (calls self)))
            \<and> (\<forall>t \<in> set (calls self). t \<le> now)"
  define elapsed where "elapsed = now - Min (set (in_window now (calls self)))"
  from h budget have ne: "in_window now (calls self) \<noteq> []" by auto
  from oldest_elapsed [OF ne] h have el: "0 \<le> elapsed" "elapsed < 60000000"
    by (simp_all add: elapsed_def)
  from timedelta_seconds_small [OF el]
  have ts: "timedelta_seconds elapsed = elapsed div 1000000" "elapsed div 1000000 \<le> 59"
    by simp_all
  have nn: "0 \<le> elapsed div 1000000" using el by (simp add: pos_imp_zdiv_nonneg_iff)
  have acq: "fst (acquire self now) = Inr (Some (60 - elapsed div 1000000))"
    using acquire_full [of self now] h ne ts by (simp add: elapsed_def)
  have b: "elapsed - 1000000 < (elapsed div 1000000) * 1000000"
          "(elapsed div 1000000) * 1000000 \<le> elapsed"
    using whole_seconds_bounds [of elapsed] by simp_all
  have "timedelta_minutes 1 - elapsed \<le> (60 - elapsed div 1000000) * 1000000"
    using b by (simp add: timedelta_minutes_def algebra_simps)
  moreover have "(60 - elapsed div 1000000) * 1000000 < timedelta_minutes 1 - elapsed + 1000000"
    using b by (simp add: timedelta_minutes_def algebra_simps)
  ultimately show "let elapsed = now - Min (set (in_window now (calls self)));
               wait_time = 60 - elapsed div 1000000
           in fst (acquire self now) = Inr (Some wait_time)
              \<and> 1 \<le> wait_time \<and> wait_time \<le> 60
              \<and> timedelta_minutes 1 - elapsed \<le> wait_time * 1000000
              \<and> wait_time * 1000000 < timedelta_minutes 1 - elapsed + 1000000"
    using acq ts nn unfolding Let_def elapsed_def [symmetric] by simp
qed

theorem C6_acquire_admission_witness:
  "0 < calls_per_minute \<lparr>calls_per_minute = 2, calls = [0, 10000000]\<rparr>
   \<and> in_window 30500000 [0, 10000000] = [0, 10000000]
   \<and> list_all (\<lambda>t. t \<le> 30500000) [0, 10000000 :: int]
   \<and> acquire \<lparr>calls_per_minute = 2, calls = [0, 10000000]\<rparr> 30500000
       = (Inr (Some 30), \<lparr>calls_per_minute = 2, calls = [0, 10000000, 30500000]\<rparr>)
   \<and> admitted_at 30500000 (Some 30) = 60500000"
  using C6_acquire_admission [of "\<lparr>calls_per_minute = 2, calls = [0, 10000000]\<rparr>" 30500000]
  by (simp add: in_window_def timedelta_minutes_def admitted_at_def acquire_def
        timedelta_seconds_def Let_def)

text \<open>
  Claim C10. Every call of \<^verbatim>\<open>acquire\<close> (positive budget) leaves the pruned window with
  exactly one more entry, the clock reading taken on entry. When the limit is hit (and
  no recorded call lies in the future) the sleep is at least one second, so the recorded
  time is strictly before the instant at which the caller goes on.
\<close>

theorem C10_acquire_records_entry_time:
  assumes budget: "0 < calls_per_minute self"
  shows "calls (snd (acquire self now)) = in_window now (calls self) @ [now]
       \<and> length (calls (snd (acquire self now))) = Suc (length (in_window now (calls self)))
       \<and> last (calls (snd (acquire self now))) = now
       \<and> (calls_per_minute self \<le> int (length (in_window now (calls self)))
            \<and> (\<forall>t \<in> set (calls self). t \<le> now) \<longrightarrow>
          (\<exists>s. fst (acquire self now) = Inr (Some s) \<and> 1 \<le> s
               \<and> last (calls (snd (acquire self now))) < admitted_at now (Some s)))"
proof -
  obtain w where w: "acquire self now = (Inr w, self\<lparr>calls := in_window now (calls self) @ [now]\<rparr>)"
    using acquire_never_raises [OF budget] by blast
  then have c: "calls (snd (acquire self now)) = in_window now (calls self) @ [now]" by simp
  have "\<exists>s. fst (acquire self now) = Inr (Some s) \<and> 1 \<le> s
            \<and> last (calls (snd (acquire self now))) < admitted_at now (Some s)"
    if h: "calls_per_minute self \<le> int (length (in_window now (calls self)))
            \<and> (\<forall>t \<in> set (calls self). t \<le> now)"
  proof -
    define elapsed where "elapsed = now - Min (set (in_window now (calls self)))"
    from h budget have ne: "in_window now (calls self) \<noteq> []" by auto
    from oldest_elapsed [OF ne] h have el: "0 \<le> elapsed" "elapsed < 60000000"
      by (simp_all add: elapsed_def)
    from timedelta_seconds_small [OF el] have ts: "timedelta_seconds elapsed \<le> 59" by simp
    have acq: "fst (acquire self now) = Inr (Some (60 - timedelta_seconds elapsed))"
      using acquire_full [of self now] h ne by (simp add: elapsed_def)
    have "now < admitted_at now (Some (60 - timedelta_seconds elapsed))"
      using ts by (simp add: admitted_at_def max_def)
    with acq ts c show ?thesis by simp
  qed
  with c show ?thesis by simp
qed

theorem C10_acquire_records_entry_time_witness:
  "0 < calls_per_minute \<lparr>calls_per_minute = 2, calls = [0, 10000000]\<rparr>
   \<and> in_window 30500000 [0, 10000000] = [0, 10000000]
   \<and> list_all (\<lambda>t. t \<le> 30500000) [0, 10000000 :: int]
   \<and> calls (snd (acquire \<lparr>calls_per_minute = 2, calls = [0, 10000000]\<rparr> 30500000))
       = [0, 10000000, 30500000]
   \<and> fst (acquire \<lparr>calls_per_minute = 2, calls = [0, 10000000]\<rparr> 30500000) = Inr (Some 30)
   \<and> (30500000::int) < admitted_at 30500000 (Some 30)"
  using C10_acquire_records_entry_time [of "\<lparr>calls_per_minute = 2, calls = [0, 10000000]\<rparr>" 30500000]
  by (simp add: in_window_def timedelta_minutes_def admitted_at_def acquire_def
        timedelta_seconds_def Let_def)

section \<open>Properties of the loop over a feed\<close>

lemma process_feed_append:
  "process_feed e (xs @ ys) W =
     (case process_feed e xs W of
        (s, Inl ex) \<Rightarrow> (s, Inl ex)
      | (s, Inr W') \<Rightarrow> (case process_feed e ys W' of (s', r) \<Rightarrow> (s @ s', r)))"
proof (induction xs arbitrary: W)
  case Nil
  show ?case by (simp split: prod.splits)
next
  case (Cons p xs)
  show ?case
    by (simp add: Cons.IH Let_def split: option.splits prod.splits sum.splits)
qed

lemma process_feed_newest_mono:
  "process_feed e ps (Some w) = (sent, Inr r) \<Longrightarrow> \<exists>w'. r = Some w' \<and> w \<le> w'"
proof (induction ps arbitrary: w sent)
  case Nil
  then show ?case by auto
next
  case (Cons p ps)
  show ?case
  proof (cases "indexed_at p")
    case None
    with Cons.prems show ?thesis by simp
  next
    case (Some t)
    show ?thesis
    proof (cases "current_time e - t > POST_AGE_THRESHOLD e \<or> t \<le> w")
      case True
      with Cons.prems Some have "process_feed e ps (Some w) = (sent, Inr r)"
        by (auto split: if_splits)
      then show ?thesis by (rule Cons.IH)
    next
      case False
      with Cons.prems Some obtain sent' where "process_feed e ps (Some t) = (sent', Inr r)"
        by (auto split: if_splits prod.splits)
      then obtain w' where "r = Some w'" "t \<le> w'" using Cons.IH by blast
      with False show ?thesis by auto
    qed
  qed
qed

lemma process_feed_sent:
  "process_feed e ps W = (sent, r) \<Longrightarrow> p \<in> set sent \<Longrightarrow>
     p \<in> set ps \<and> send e p \<and> spec_eligible e W p"
proof (induction ps arbitrary: W sent r)
  case Nil
  then show ?case by simp
next
  case (Cons q ps)
  show ?case
  proof (cases "indexed_at q")
    case None
    with Cons.prems show ?thesis by simp
  next
    case (Some t)
    show ?thesis
    proof (cases "current_time e - t > POST_AGE_THRESHOLD e
                  \<or> (case W of None \<Rightarrow> False | Some n \<Rightarrow> t \<le> n)")
      case True
      with Cons.prems Some have "process_feed e ps W = (sent, r)"
        by (auto split: if_splits)
      from Cons.IH [OF this Cons.prems(2)] show ?thesis by simp
    next
      case pass: False
      show ?thesis
      proof (cases "send e q")
        case nosend: False
        with Cons.prems Some pass show ?thesis by (auto split: if_splits)
      next
        case snd: True
        obtain sent' r' where pf: "process_feed e ps (Some t) = (sent', r')"
          by (cases "process_feed e ps (Some t)")
        have upd: "(case W of None \<Rightarrow> Some t | Some n \<Rightarrow> if t > n then Some t else Some n) = Some t"
          using pass by (auto split: option.splits)
        from Cons.prems(1) Some pass snd pf upd have s: "sent = q # sent'"
          by (auto simp: Let_def split: if_splits)
        have qel: "spec_eligible e W q"
          using pass Some by (auto simp: spec_eligible_def split: option.splits)
        show ?thesis
        proof (cases "p = q")
          case True
          with snd qel show ?thesis by simp
        next
          case False
          with s Cons.prems(2) have "p \<in> set sent'" by simp
          from Cons.IH [OF pf this] have a: "p \<in> set ps" "send e p" "spec_eligible e (Some t) p"
            by simp_all
          have "spec_eligible e W p"
            using a(3) pass
            by (auto simp: spec_eligible_def split: option.splits)
          with a show ?thesis by simp
        qed
      qed
    qed
  qed
qed

section \<open>Properties of the retried calls\<close>

lemma retry_first_success:
  "body 1 = Inr v \<Longrightarrow> retry body = \<lparr>outcome = Inr v, attempts = 1, sleeps = []\<rparr>"
  by (simp add: retry_def retry_loop.simps)

lemma retry_outcome:
  "outcome (retry body) =
     (case body 1 of Inr v \<Rightarrow> Inr v
      | Inl _ \<Rightarrow> (case body 2 of Inr v \<Rightarrow> Inr v
         | Inl _ \<Rightarrow> (case body 3 of Inr v \<Rightarrow> Inr v | Inl _ \<Rightarrow> Inl RetryError)))"
proof -
  have s2: "Suc (Suc 0) = 2" and s3: "Suc 2 = 3" by simp_all
  show ?thesis
    unfolding retry_def
    apply (subst retry_loop.simps)
    apply (subst retry_loop.simps)
    apply (subst retry_loop.simps)
    apply (simp add: s2 s3 Let_def split: sum.splits)
    done
qed

lemma retry_attempts:
  "attempts (retry body) =
     (case body 1 of Inr v \<Rightarrow> 1
      | Inl _ \<Rightarrow> (case body 2 of Inr v \<Rightarrow> 2 | Inl _ \<Rightarrow> 3))"
proof -
  have s2: "Suc (Suc 0) = 2" and s3: "Suc 2 = 3" by simp_all
  show ?thesis
    unfolding retry_def
    apply (subst retry_loop.simps)
    apply (subst retry_loop.simps)
    apply (subst retry_loop.simps)
    apply (simp add: s2 s3 Let_def split: sum.splits)
    done
qed

lemma retry_sleeps:
  "sleeps (retry body) =
     (case body 1 of Inr v \<Rightarrow> []
      | Inl _ \<Rightarrow> (case body 2 of Inr v \<Rightarrow> [4] | Inl _ \<Rightarrow> [4, 4]))"
proof -
  have s2: "Suc (Suc 0) = 2" and s3: "Suc 2 = 3" by simp_all
  show ?thesis
    unfolding retry_def
    apply (subst retry_loop.simps)
    apply (subst retry_loop.simps)
    apply (subst retry_loop.simps)
    apply (simp add: s2 s3 Let_def wait_exponential_def split: sum.splits)
    done
qed

lemma get_list_members_body_returns: "\<exists>hs. get_list_members_body r = Inr hs"
  by (simp add: get_list_members_body_def split: sum.splits option.splits)

lemma fetch_posts_exhausted:
  assumes "isl (gaf h 1)" "isl (gaf h 2)" "isl (gaf h 3)"
  shows "outcome (fetch_posts gaf h) = Inl RetryError"
  using assms by (auto simp: fetch_posts_def retry_outcome isl_def)

section \<open>Properties of the scheduler\<close>

lemma process_handle_fetch_failed:
  "outcome (fetch_posts (get_author_feed e) h) = Inl ex \<Longrightarrow>
     process_handle e st h = st\<lparr>log_lines := log_lines st @ [ErrorProcessingUser h ex]\<rparr>"
  by (simp add: process_handle_def)

lemma process_handle_fetched:
  assumes "outcome (fetch_posts (get_author_feed e) h) = Inr (Some feed)" and "feed \<noteq> []"
      and "process_feed e (rev feed) (last_processed_times st h) = (sent, r)"
  shows "process_handle e st h =
           (case r of
              Inl ex \<Rightarrow> st\<lparr>channel := channel st @ sent,
                           log_lines := log_lines st @ [ErrorProcessingUser h ex]\<rparr>
            | Inr None \<Rightarrow> st\<lparr>channel := channel st @ sent\<rparr>
            | Inr (Some newest_time) \<Rightarrow>
                st\<lparr>channel := channel st @ sent,
                   last_processed_times := (last_processed_times st)(h \<mapsto> newest_time)\<rparr>)"
  using assms by (simp add: process_handle_def Let_def split: sum.splits option.splits)

lemma process_handle_other:
  "h' \<noteq> h \<Longrightarrow> last_processed_times (process_handle e st h') h = last_processed_times st h"
  by (simp add: process_handle_def Let_def split: sum.splits option.splits prod.splits)

lemma process_handle_mono:
  assumes "last_processed_times st h = Some w"
  shows "\<exists>w'. last_processed_times (process_handle e st h') h = Some w' \<and> w \<le> w'"
proof (cases "h' = h")
  case False
  with assms show ?thesis by (simp add: process_handle_other)
next
  case True
  show ?thesis
  proof (cases "outcome (fetch_posts (get_author_feed e) h)")
    case (Inl ex)
    with assms True show ?thesis by (simp add: process_handle_fetch_failed)
  next
    case (Inr response)
    show ?thesis
    proof (cases "\<exists>feed. response = Some feed \<and> feed \<noteq> []")
      case False
      with Inr assms True show ?thesis
        by (auto simp: process_handle_def split: option.splits)
    next
      case True
      then obtain feed where f: "response = Some feed" "feed \<noteq> []" by blast
      obtain sent r where pf: "process_feed e (rev feed) (last_processed_times st h) = (sent, r)"
        by (cases "process_feed e (rev feed) (last_processed_times st h)")
      note ph = process_handle_fetched [OF Inr [unfolded f(1)] f(2) pf]
      show ?thesis
      proof (cases r)
        case (Inl ex)
        with ph assms \<open>h' = h\<close> show ?thesis by simp
      next
        case r: (Inr n)
        from pf assms r have "process_feed e (rev feed) (Some w) = (sent, Inr n)" by simp
        then obtain w' where "n = Some w'" "w \<le> w'"
          using process_feed_newest_mono by blast
        with ph r \<open>h' = h\<close> show ?thesis by simp
      qed
    qed
  qed
qed

lemma foldl_process_handle_mono:
  "last_processed_times st h = Some w \<Longrightarrow>
     \<exists>w'. last_processed_times (foldl (process_handle e) st hs) h = Some w' \<and> w \<le> w'"
proof (induction hs arbitrary: st w)
  case Nil
  then show ?case by simp
next
  case (Cons a hs)
  from process_handle_mono [OF Cons.prems, of e a]
  obtain w1 where w1: "last_processed_times (process_handle e st a) h = Some w1" "w \<le> w1"
    by blast
  from Cons.IH [OF w1(1)] obtain w' where
    "last_processed_times (foldl (process_handle e) (process_handle e st a) hs) h = Some w'" "w1 \<le> w'"
    by blast
  with w1(2) show ?case by auto
qed

lemma check_subscriptions_updates_mono:
  assumes "last_processed_times st h = Some w"
  shows "\<exists>w'. last_processed_times (check_subscriptions_updates e st) h = Some w' \<and> w \<le> w'"
proof (cases "channel_found e \<and> (\<exists>hs. outcome (get_list_members (get_list e)) = Inr hs \<and> hs \<noteq> [])")
  case True
  then obtain hs where "outcome (get_list_members (get_list e)) = Inr hs" "hs \<noteq> []" by blast
  with True have "check_subscriptions_updates e st = foldl (process_handle e) st hs"
    by (simp add: check_subscriptions_updates_def)
  with foldl_process_handle_mono [OF assms] show ?thesis by simp
next
  case False
  then have "last_processed_times (check_subscriptions_updates e st) = last_processed_times st"
    by (auto simp: check_subscriptions_updates_def split: sum.splits)
  with assms show ?thesis by simp
qed

lemmas run_defs =
  sweeps_def check_subscriptions_updates_def get_list_members_def get_list_members_body_def
  retry_outcome process_handle_def fetch_posts_def simple_env_def state0_def post_at_def
  at_minute_def POST_AGE_THRESHOLD_def timedelta_minutes_def List.map_filter_def Let_def

text \<open>
  Claim C3. Whatever the runs of the task meet (any membership, feeds in any order and of
  any age, failing fetches or deliveries), a handle that has a watermark keeps one, and
  its timestamp after any sequence of runs is at least what it was before.
\<close>

theorem C3_watermark_monotone:
  "last_processed_times st h = Some w \<Longrightarrow>
     \<exists>w'. last_processed_times (sweeps es st) h = Some w' \<and> w \<le> w'"
proof (induction es arbitrary: st w)
  case Nil
  then show ?case by (simp add: sweeps_def)
next
  case (Cons e es)
  from check_subscriptions_updates_mono [OF Cons.prems, of e]
  obtain w1 where w1: "last_processed_times (check_subscriptions_updates e st) h = Some w1" "w \<le> w1"
    by blast
  from Cons.IH [OF w1(1)] obtain w' where
    "last_processed_times (sweeps es (check_subscriptions_updates e st)) h = Some w'" "w1 \<le> w'"
    by blast
  with w1(2) show ?case by (auto simp: sweeps_def)
qed

theorem C3_watermark_monotone_witness:
  "last_processed_times (state0 [''bob'' \<mapsto> at_minute 605]) ''bob'' = Some (at_minute 605)
   \<and> last_processed_times
        (sweeps [simple_env [''bob'']
                   (\<lambda>h. Inr (Some [post_at ''p1'' 600, post_at ''p3'' 610, post_at ''p2'' 605]))
                   (\<lambda>p. True) 611 60]
           (state0 [''bob'' \<mapsto> at_minute 605])) ''bob'' = Some (at_minute 610)
   \<and> at_minute 605 \<le> at_minute 610"
  using C3_watermark_monotone [of "state0 [''bob'' \<mapsto> at_minute 605]" "''bob''" "at_minute 605"
      "[simple_env [''bob'']
                   (\<lambda>h. Inr (Some [post_at ''p1'' 600, post_at ''p3'' 610, post_at ''p2'' 605]))
                   (\<lambda>p. True) 611 60]"]
  by (simp add: run_defs)

lemma process_handle_core:
  assumes "last_processed_times st = last_processed_times st'" and "channel st = channel st'"
  shows "last_processed_times (process_handle e st h) = last_processed_times (process_handle e st' h)
       \<and> channel (process_handle e st h) = channel (process_handle e st' h)"
  using assms
  by (simp add: process_handle_def Let_def split: sum.splits option.splits prod.splits)

lemma foldl_process_handle_core:
  "last_processed_times st = last_processed_times st' \<Longrightarrow> channel st = channel st' \<Longrightarrow>
     last_processed_times (foldl (process_handle e) st hs)
       = last_processed_times (foldl (process_handle e) st' hs)
     \<and> channel (foldl (process_handle e) st hs) = channel (foldl (process_handle e) st' hs)"
proof (induction hs arbitrary: st st')
  case Nil
  then show ?case by simp
next
  case (Cons a hs)
  have "last_processed_times (process_handle e st a) = last_processed_times (process_handle e st' a)"
    and "channel (process_handle e st a) = channel (process_handle e st' a)"
    using process_handle_core [OF Cons.prems, of e a] by simp_all
  from Cons.IH [OF this] show ?case by simp
qed

lemma log_lines_process_handle:
  "\<exists>ls. log_lines (process_handle e st h) = log_lines st @ ls"
  by (simp add: process_handle_def Let_def split: sum.splits option.splits prod.splits)

lemma log_lines_foldl_process_handle:
  "\<exists>ls. log_lines (foldl (process_handle e) st hs) = log_lines st @ ls"
proof (induction hs arbitrary: st)
  case Nil
  show ?case by simp
next
  case (Cons a hs)
  obtain l1 where l1: "log_lines (process_handle e st a) = log_lines st @ l1"
    using log_lines_process_handle by blast
  obtain l2 where "log_lines (foldl (process_handle e) (process_handle e st a) hs)
                     = log_lines (process_handle e st a) @ l2"
    using Cons.IH by blast
  with l1 show ?case by simp
qed

text \<open>
  Claim C8. When every attempt to fetch the feed of one account raises, that account is
  skipped with one logged error line and nothing else changes; the run goes on, and its
  watermarks and the messages it sends are those of a run over the other accounts alone.
\<close>

theorem C8_fetch_failure_isolated:
  assumes fails: "isl (get_author_feed e b 1) \<and> isl (get_author_feed e b 2) \<and> isl (get_author_feed e b 3)"
      and found: "channel_found e"
      and members: "outcome (get_list_members (get_list e)) = Inr (as @ b # cs)"
  shows "process_handle e st b = st\<lparr>log_lines := log_lines st @ [ErrorProcessingUser b RetryError]\<rparr>
       \<and> last_processed_times (check_subscriptions_updates e st)
           = last_processed_times (foldl (process_handle e) st (as @ cs))
       \<and> channel (check_subscriptions_updates e st)
           = channel (foldl (process_handle e) st (as @ cs))
       \<and> ErrorProcessingUser b RetryError \<in> set (log_lines (check_subscriptions_updates e st))"
proof -
  let ?f = "process_handle e"
  have ex: "outcome (fetch_posts (get_author_feed e) b) = Inl RetryError"
    using fails by (simp add: fetch_posts_exhausted)
  have skip: "\<And>s. ?f s b = s\<lparr>log_lines := log_lines s @ [ErrorProcessingUser b RetryError]\<rparr>"
    using ex by (rule process_handle_fetch_failed)
  have run: "check_subscriptions_updates e st = foldl ?f st (as @ b # cs)"
    using found members by (simp add: check_subscriptions_updates_def)
  define s1 where "s1 = foldl ?f st as"
  have split: "foldl ?f st (as @ b # cs) = foldl ?f (?f s1 b) cs"
    and split': "foldl ?f st (as @ cs) = foldl ?f s1 cs"
    by (simp_all add: s1_def)
  have "last_processed_times (?f s1 b) = last_processed_times s1" "channel (?f s1 b) = channel s1"
    by (simp_all add: skip)
  from foldl_process_handle_core [OF this, of e cs]
  have core: "last_processed_times (foldl ?f (?f s1 b) cs) = last_processed_times (foldl ?f s1 cs)"
             "channel (foldl ?f (?f s1 b) cs) = channel (foldl ?f s1 cs)"
    by simp_all
  obtain ls where "log_lines (foldl ?f (?f s1 b) cs) = log_lines (?f s1 b) @ ls"
    using log_lines_foldl_process_handle by blast
  then have "ErrorProcessingUser b RetryError \<in> set (log_lines (foldl ?f (?f s1 b) cs))"
    by (simp add: skip)
  then have r3: "ErrorProcessingUser b RetryError \<in> set (log_lines (check_subscriptions_updates e st))"
    by (simp only: run split)
  have r1: "last_processed_times (check_subscriptions_updates e st)
              = last_processed_times (foldl ?f st (as @ cs))"
    using core(1) by (simp only: run split split')
  have r2: "channel (check_subscriptions_updates e st) = channel (foldl ?f st (as @ cs))"
    using core(2) by (simp only: run split split')
  from skip [of st] r1 r2 r3 show ?thesis by blast
qed

lemma feeds_abc_simps:
  "feeds_abc ''a'' = Inr (Some [post_at ''a1'' 600])"
  "feeds_abc ''b'' = Inl RemoteFailure"
  "feeds_abc ''c'' = Inr (Some [post_at ''c1'' 602])"
  by (simp_all add: feeds_abc_def)

theorem C8_fetch_failure_isolated_witness:
  "isl (get_author_feed (simple_env [''a'', ''b'', ''c''] feeds_abc (\<lambda>p. True) 611 60) ''b'' 1)
   \<and> isl (get_author_feed (simple_env [''a'', ''b'', ''c''] feeds_abc (\<lambda>p. True) 611 60) ''b'' 2)
   \<and> isl (get_author_feed (simple_env [''a'', ''b'', ''c''] feeds_abc (\<lambda>p. True) 611 60) ''b'' 3)
   \<and> channel_found (simple_env [''a'', ''b'', ''c''] feeds_abc (\<lambda>p. True) 611 60)
   \<and> outcome (get_list_members (get_list (simple_env [''a'', ''b'', ''c''] feeds_abc (\<lambda>p. True) 611 60)))
        = Inr ([''a''] @ ''b'' # [''c''])
   \<and> check_subscriptions_updates (simple_env [''a'', ''b'', ''c''] feeds_abc (\<lambda>p. True) 611 60)
        (state0 Map.empty)
      = \<lparr>last_processed_times = [''a'' \<mapsto> at_minute 600, ''c'' \<mapsto> at_minute 602],
         channel = [post_at ''a1'' 600, post_at ''c1'' 602],
         log_lines = [ErrorProcessingUser ''b'' RetryError]\<rparr>
   \<and> last_processed_times
        (foldl (process_handle (simple_env [''a'', ''b'', ''c''] feeds_abc (\<lambda>p. True) 611 60))
           (state0 Map.empty) ([''a''] @ [''c'']))
      = [''a'' \<mapsto> at_minute 600, ''c'' \<mapsto> at_minute 602]"
  using C8_fetch_failure_isolated [of "simple_env [''a'', ''b'', ''c''] feeds_abc (\<lambda>p. True) 611 60"
      "''b''" "[''a'']" "[''c'']" "state0 Map.empty"]
  by (simp add: run_defs feeds_abc_simps)

section \<open>The dedup and age tests\<close>

lemma process_feed_single:
  assumes "indexed_at p = Some t"
  shows "process_feed e [p] W =
           (if current_time e - t > POST_AGE_THRESHOLD e then ([], Inr W)
            else if (case W of None \<Rightarrow> False | Some n \<Rightarrow> t \<le> n) then ([], Inr W)
            else if send e p then ([p], Inr (Some t))
            else ([], Inl DeliveryFailure))"
  using assms by (auto simp: Let_def split: option.splits)

lemma process_feed_all_old:
  assumes "\<forall>p \<in> set ps. \<forall>t. indexed_at p = Some t \<longrightarrow> t \<le> W"
  shows "process_feed e ps (Some W) = ([], Inr (Some W))
       \<or> process_feed e ps (Some W) = ([], Inl BadTimestamp)"
  using assms
proof (induction ps)
  case Nil
  show ?case by simp
next
  case (Cons p ps)
  show ?case
  proof (cases "indexed_at p")
    case None
    then show ?thesis by simp
  next
    case (Some t)
    with Cons.prems have "t \<le> W" by simp
    with Some have "process_feed e (p # ps) (Some W) = process_feed e ps (Some W)" by simp
    with Cons show ?thesis by simp
  qed
qed

lemma process_handle_all_old:
  assumes w: "last_processed_times st h = Some W"
      and fetched: "outcome (fetch_posts (get_author_feed e) h) = Inr (Some feed)"
      and old: "\<forall>p \<in> set feed. \<forall>t. indexed_at p = Some t \<longrightarrow> t \<le> W"
  shows "channel (process_handle e st h) = channel st
       \<and> last_processed_times (process_handle e st h) = last_processed_times st"
proof (cases "feed = []")
  case True
  with fetched show ?thesis by (simp add: process_handle_def)
next
  case False
  from old have "\<forall>p \<in> set (rev feed). \<forall>t. indexed_at p = Some t \<longrightarrow> t \<le> W" by simp
  from process_feed_all_old [OF this, of e]
  consider "process_feed e (rev feed) (last_processed_times st h) = ([], Inr (Some W))"
    | "process_feed e (rev feed) (last_processed_times st h) = ([], Inl BadTimestamp)"
    using w by auto
  then show ?thesis
  proof cases
    case 1
    have "(last_processed_times st)(h \<mapsto> W) = last_processed_times st"
      using w by (rule map_upd_triv)
    with process_handle_fetched [OF fetched False 1] show ?thesis by simp
  next
    case 2
    from process_handle_fetched [OF fetched False 2] show ?thesis by simp
  qed
qed

text \<open>
  Claim C5. A post whose age equals the threshold passes the age test, and a post that
  is strictly older never does: a post that would otherwise be forwarded (parsable
  timestamp, newer than the watermark, delivery succeeding) is forwarded exactly when
  its age is at most the threshold, and no post older than the threshold is ever among
  the posts forwarded from a feed.
\<close>

theorem C5_age_boundary_inclusive:
  "(indexed_at p = Some t \<and> send e p \<and> (\<forall>w. W = Some w \<longrightarrow> w < t) \<longrightarrow>
      (fst (process_feed e [p] W) = [p] \<longleftrightarrow> current_time e - t \<le> POST_AGE_THRESHOLD e)
      \<and> (current_time e - t = POST_AGE_THRESHOLD e \<longrightarrow> process_feed e [p] W = ([p], Inr (Some t))))
   \<and> (indexed_at p = Some t \<and> current_time e - t > POST_AGE_THRESHOLD e \<longrightarrow>
        process_feed e [p] W = ([], Inr W))
   \<and> (q \<in> set (fst (process_feed e ps W)) \<longrightarrow>
        (\<exists>u. indexed_at q = Some u \<and> current_time e - u \<le> POST_AGE_THRESHOLD e))"
proof (intro conjI impI)
  assume a: "indexed_at p = Some t \<and> send e p \<and> (\<forall>w. W = Some w \<longrightarrow> w < t)"
  then have nw: "\<not> (case W of None \<Rightarrow> False | Some n \<Rightarrow> t \<le> n)"
    by (auto split: option.splits)
  from a nw show "fst (process_feed e [p] W) = [p] \<longleftrightarrow> current_time e - t \<le> POST_AGE_THRESHOLD e"
    by (simp add: process_feed_single [of p t])
  assume "current_time e - t = POST_AGE_THRESHOLD e"
  with a nw show "process_feed e [p] W = ([p], Inr (Some t))"
    by (auto simp: Let_def split: option.splits)
next
  assume "indexed_at p = Some t \<and> current_time e - t > POST_AGE_THRESHOLD e"
  then show "process_feed e [p] W = ([], Inr W)"
    by (simp add: process_feed_single [of p t])
next
  assume q: "q \<in> set (fst (process_feed e ps W))"
  obtain sent r where pf: "process_feed e ps W = (sent, r)"
    by (cases "process_feed e ps W")
  with q have "q \<in> set sent" by simp
  from process_feed_sent [OF pf this] have "spec_eligible e W q" by simp
  then show "\<exists>u. indexed_at q = Some u \<and> current_time e - u \<le> POST_AGE_THRESHOLD e"
    by (auto simp: spec_eligible_def split: option.splits)
qed

theorem C5_age_boundary_inclusive_witness:
  "indexed_at (post_at ''p1'' 551) = Some (at_minute 551)
   \<and> current_time (env_bob [] (\<lambda>p. True) 611) - at_minute 551
        = POST_AGE_THRESHOLD (env_bob [] (\<lambda>p. True) 611)
   \<and> process_feed (env_bob [] (\<lambda>p. True) 611) [post_at ''p1'' 551] None
        = ([post_at ''p1'' 551], Inr (Some (at_minute 551)))
   \<and> current_time (env_bob [] (\<lambda>p. True) 611) - at_minute 550
        > POST_AGE_THRESHOLD (env_bob [] (\<lambda>p. True) 611)
   \<and> process_feed (env_bob [] (\<lambda>p. True) 611) [post_at ''p0'' 550] None = ([], Inr None)
   \<and> fst (process_feed (env_bob [] (\<lambda>p. True) 611) [post_at ''p0'' 550, post_at ''p1'' 551] None)
        = [post_at ''p1'' 551]"
  using C5_age_boundary_inclusive [where p = "post_at ''p1'' 551" and t = "at_minute 551"
      and e = "env_bob [] (\<lambda>p. True) 611" and W = None and q = "post_at ''p1'' 551"
      and ps = "[post_at ''p0'' 550, post_at ''p1'' 551]"]
    C5_age_boundary_inclusive [where p = "post_at ''p0'' 550" and t = "at_minute 550"
      and e = "env_bob [] (\<lambda>p. True) 611" and W = None and q = "post_at ''p1'' 551"
      and ps = "[post_at ''p0'' 550, post_at ''p1'' 551]"]
  by (simp add: run_defs env_bob_def)

section \<open>Feeds in chronological order\<close>

lemma process_feed_chronological:
  assumes "map indexed_at ps = map Some ts" and "sorted_wrt (<) ts"
      and "\<forall>p \<in> set ps. send e p"
  shows "process_feed e ps W =
           (filter (spec_eligible e W) ps,
            Inr (if filter (spec_eligible e W) ps = [] then W
                 else indexed_at (last (filter (spec_eligible e W) ps))))"
  using assms
proof (induction ps arbitrary: ts W)
  case Nil
  show ?case by simp
next
  case (Cons p ps)
  from Cons.prems(1) obtain t ts' where ts: "ts = t # ts'" "indexed_at p = Some t"
    "map indexed_at ps = map Some ts'"
    by (cases ts) auto
  from Cons.prems(2) ts have sorted': "sorted_wrt (<) ts'" and later: "\<forall>u \<in> set ts'. t < u"
    by simp_all
  from Cons.prems(3) have sends: "\<forall>q \<in> set ps. send e q" and sendp: "send e p" by simp_all
  note IH = Cons.IH [OF ts(3) sorted' sends]
  have rest_later: "\<And>q. q \<in> set ps \<Longrightarrow> \<exists>u. indexed_at q = Some u \<and> t < u"
  proof -
    fix q assume "q \<in> set ps"
    then have "indexed_at q \<in> set (map indexed_at ps)" by simp
    with ts(3) have "indexed_at q \<in> Some ` set ts'" by simp
    with later show "\<exists>u. indexed_at q = Some u \<and> t < u" by auto
  qed
  show ?case
  proof (cases "spec_eligible e W p")
    case False
    with ts(2) have skip: "current_time e - t > POST_AGE_THRESHOLD e
                    \<or> (case W of None \<Rightarrow> False | Some n \<Rightarrow> t \<le> n)"
      by (auto simp: spec_eligible_def split: option.splits)
    then have "process_feed e (p # ps) W = process_feed e ps W"
      using ts(2) by auto
    with IH [of W] False show ?thesis by (simp del: process_feed.simps)
  next
    case True
    with ts(2) have pass: "\<not> current_time e - t > POST_AGE_THRESHOLD e"
        "\<not> (case W of None \<Rightarrow> False | Some n \<Rightarrow> t \<le> n)"
      by (auto simp: spec_eligible_def split: option.splits)
    have upd: "(case W of None \<Rightarrow> Some t | Some n \<Rightarrow> if t > n then Some t else Some n) = Some t"
      using pass(2) by (auto split: option.splits)
    have step: "process_feed e (p # ps) W =
                  (case process_feed e ps (Some t) of (sent, r) \<Rightarrow> (p # sent, r))"
      using ts(2) pass sendp upd by (simp add: Let_def)
    have same: "filter (spec_eligible e (Some t)) ps = filter (spec_eligible e W) ps"
    proof (rule filter_cong [OF refl])
      fix q assume "q \<in> set ps"
      then obtain u where u: "indexed_at q = Some u" "t < u" using rest_later by blast
      with pass(2) show "spec_eligible e (Some t) q = spec_eligible e W q"
        by (auto simp: spec_eligible_def split: option.splits)
    qed
    show ?thesis
      using True ts(2) by (simp add: step IH [of "Some t"] same del: process_feed.simps)
  qed
qed


lemma process_handle_chronological:
  assumes newest_first: "map indexed_at feed = map Some ts \<and> sorted_wrt (>) ts"
      and delivered: "\<forall>p \<in> set feed. send e p"
      and fetched: "outcome (fetch_posts (get_author_feed e) h) = Inr (Some feed)"
  shows "channel (process_handle e st h)
           = channel st @ rev (filter (spec_eligible e (last_processed_times st h)) feed)
       \<and> (filter (spec_eligible e (last_processed_times st h)) feed \<noteq> [] \<longrightarrow>
            last_processed_times (process_handle e st h) h
              = indexed_at (hd (filter (spec_eligible e (last_processed_times st h)) feed)))"
proof -
  let ?W = "last_processed_times st h"
  let ?el = "filter (spec_eligible e ?W) feed"
  from newest_first have "rev (map indexed_at feed) = rev (map Some ts)" by simp
  then have m: "map indexed_at (rev feed) = map Some (rev ts)"
    by (simp only: rev_map)
  have s: "sorted_wrt (<) (rev ts)"
    using newest_first by (simp add: sorted_wrt_rev)
  have d: "\<forall>p \<in> set (rev feed). send e p" using delivered by simp
  have pf: "process_feed e (rev feed) ?W =
              (rev ?el, Inr (if ?el = [] then ?W else indexed_at (hd ?el)))"
  proof -
    have f: "filter (spec_eligible e ?W) (rev feed) = rev ?el" by (simp add: rev_filter)
    note pf0 = process_feed_chronological [OF m s d, of ?W]
    show ?thesis by (simp only: pf0 f last_rev rev_is_Nil_conv)
  qed
  show ?thesis
  proof (cases "feed = []")
    case True
    with fetched show ?thesis by (simp add: process_handle_def)
  next
    case False
    note ph = process_handle_fetched [OF fetched False pf]
    show ?thesis
    proof (cases "?el = []")
      case True
      with ph show ?thesis by (simp split: option.splits)
    next
      case ne: False
      then have "hd ?el \<in> set ?el" by (rule hd_in_set)
      then have "spec_eligible e ?W (hd ?el)" by simp
      then obtain t where t: "indexed_at (hd ?el) = Some t"
        by (auto simp: spec_eligible_def split: option.splits)
      with ph ne show ?thesis by simp
    qed
  qed
qed

text \<open>
  Claim C7. For a feed delivered newest first (timestamps strictly decreasing) whose
  deliveries succeed, the posts that are newer than the watermark and within the age
  threshold are forwarded in chronological order, the reverse of the feed's, and the
  watermark becomes the timestamp of the newest of them; when every post of the feed is
  such a post, the whole feed is forwarded oldest first and the watermark is the
  timestamp of the feed's first post.
\<close>

theorem C7_chronological_forwarding:
  assumes newest_first: "map indexed_at feed = map Some ts \<and> sorted_wrt (>) ts"
      and delivered: "\<forall>p \<in> set feed. send e p"
      and fetched: "outcome (fetch_posts (get_author_feed e) h) = Inr (Some feed)"
  shows "channel (process_handle e st h)
           = channel st @ rev (filter (spec_eligible e (last_processed_times st h)) feed)
       \<and> (filter (spec_eligible e (last_processed_times st h)) feed \<noteq> [] \<longrightarrow>
            last_processed_times (process_handle e st h) h
              = indexed_at (hd (filter (spec_eligible e (last_processed_times st h)) feed)))
       \<and> (feed \<noteq> [] \<and> (\<forall>p \<in> set feed. spec_eligible e (last_processed_times st h) p) \<longrightarrow>
            channel (process_handle e st h) = channel st @ rev feed
            \<and> last_processed_times (process_handle e st h) h = indexed_at (hd feed))"
proof -
  let ?W = "last_processed_times st h"
  let ?el = "filter (spec_eligible e ?W) feed"
  note main = process_handle_chronological [OF newest_first delivered fetched, of st]
  have all: "channel (process_handle e st h) = channel st @ rev feed
            \<and> last_processed_times (process_handle e st h) h = indexed_at (hd feed)"
    if a: "feed \<noteq> [] \<and> (\<forall>p \<in> set feed. spec_eligible e ?W p)"
  proof -
    from a have "?el = feed" by simp
    with main a show ?thesis by simp
  qed
  from main all show ?thesis by blast
qed

theorem C7_chronological_forwarding_witness:
  "map indexed_at feed3 = map Some [at_minute 610, at_minute 605, at_minute 600]
   \<and> sorted_wrt (>) [at_minute 610, at_minute 605, at_minute 600]
   \<and> list_all (send (env_bob feed3 (\<lambda>p. True) 615)) feed3
   \<and> outcome (fetch_posts (get_author_feed (env_bob feed3 (\<lambda>p. True) 615)) ''bob'') = Inr (Some feed3)
   \<and> list_all (spec_eligible (env_bob feed3 (\<lambda>p. True) 615) (Some (at_minute 555))) feed3
   \<and> process_handle (env_bob feed3 (\<lambda>p. True) 615) (state0 [''bob'' \<mapsto> at_minute 555]) ''bob''
        = \<lparr>last_processed_times = [''bob'' \<mapsto> at_minute 610],
           channel = [post_at ''p1'' 600, post_at ''p2'' 605, post_at ''p3'' 610],
           log_lines = []\<rparr>"
  using C7_chronological_forwarding [where feed = feed3
      and ts = "[at_minute 610, at_minute 605, at_minute 600]"
      and e = "env_bob feed3 (\<lambda>p. True) 615" and h = "''bob''"
      and st = "state0 [''bob'' \<mapsto> at_minute 555]"]
  by (simp add: run_defs env_bob_def feed3_def spec_eligible_def)

section \<open>A failing delivery\<close>

text \<open>
  Claim C1 as stated does not hold. The feed of one handle has two new posts; the older
  one is delivered, the delivery of the newer one raises. The run ends with the first
  post in the channel, one error line, and no watermark for the handle: the advance for
  the delivered post is not committed, and a following run delivers that post again.
\<close>

theorem C1_watermark_dropped_counterexample:
  "check_subscriptions_updates (env_bob feed2 sends_only_p1 611) (state0 Map.empty)
     = \<lparr>last_processed_times = Map.empty,
        channel = [post_at ''p1'' 600],
        log_lines = [ErrorProcessingUser ''bob'' DeliveryFailure]\<rparr>
   \<and> \<not> watermark_covers
          (check_subscriptions_updates (env_bob feed2 sends_only_p1 611) (state0 Map.empty))
          ''bob'' (post_at ''p1'' 600)
   \<and> channel (sweeps [env_bob feed2 sends_only_p1 611, env_bob feed2 (\<lambda>p. True) 612]
                 (state0 Map.empty))
       = [post_at ''p1'' 600, post_at ''p1'' 600, post_at ''p2'' 605]"
  by (simp add: run_defs env_bob_def feed2_def sends_only_p1_def watermark_covers_def)

lemma process_feed_delivery_fails:
  assumes "spec_eligible e n p" and "\<not> send e p"
  shows "process_feed e (p # rest) n = ([], Inl DeliveryFailure)"
  using assms by (auto simp: spec_eligible_def Let_def split: option.splits)

text \<open>
  Claim C1, amended. When the delivery of a post raises, the exception leaves the loop of
  that handle: the failure is logged, the posts after it are not attempted, the posts
  delivered before it stay delivered, and the watermark of the handle is left as it was
  before the run.
\<close>

theorem C1_delivery_failure_aborts_handle:
  assumes fetched: "outcome (fetch_posts (get_author_feed e) h) = Inr (Some feed)"
      and parts: "rev feed = before @ p # after"
      and before_ok: "process_feed e before (last_processed_times st h) = (sent, Inr n)"
      and eligible: "spec_eligible e n p"
      and fails: "\<not> send e p"
  shows "process_handle e st h
           = st\<lparr>channel := channel st @ sent,
                log_lines := log_lines st @ [ErrorProcessingUser h DeliveryFailure]\<rparr>
       \<and> last_processed_times (process_handle e st h) = last_processed_times st
       \<and> set sent \<subseteq> set before"
proof -
  from parts have ne: "feed \<noteq> []" by auto
  have tail: "process_feed e (p # after) n = ([], Inl DeliveryFailure)"
    using eligible fails by (rule process_feed_delivery_fails)
  have "process_feed e (before @ p # after) (last_processed_times st h)
          = (sent, Inl DeliveryFailure)"
    by (simp only: process_feed_append before_ok tail prod.case sum.case append_Nil2)
  with parts have pf: "process_feed e (rev feed) (last_processed_times st h)
                         = (sent, Inl DeliveryFailure)"
    by simp
  have sub: "set sent \<subseteq> set before"
    using process_feed_sent [OF before_ok] by blast
  from process_handle_fetched [OF fetched ne pf] sub show ?thesis by simp
qed


theorem C1_delivery_failure_aborts_handle_witness:
  "outcome (fetch_posts (get_author_feed (env_bob feed2 sends_only_p1 611)) ''bob'') = Inr (Some feed2)
   \<and> rev feed2 = [post_at ''p1'' 600] @ post_at ''p2'' 605 # []
   \<and> process_feed (env_bob feed2 sends_only_p1 611) [post_at ''p1'' 600]
        (last_processed_times (state0 Map.empty) ''bob'')
      = ([post_at ''p1'' 600], Inr (Some (at_minute 600)))
   \<and> spec_eligible (env_bob feed2 sends_only_p1 611) (Some (at_minute 600)) (post_at ''p2'' 605)
   \<and> \<not> send (env_bob feed2 sends_only_p1 611) (post_at ''p2'' 605)
   \<and> process_handle (env_bob feed2 sends_only_p1 611) (state0 Map.empty) ''bob''
      = \<lparr>last_processed_times = Map.empty,
         channel = [post_at ''p1'' 600],
         log_lines = [ErrorProcessingUser ''bob'' DeliveryFailure]\<rparr>"
  using C1_delivery_failure_aborts_handle [where e = "env_bob feed2 sends_only_p1 611"
      and h = "''bob''" and feed = feed2 and before = "[post_at ''p1'' 600]"
      and p = "post_at ''p2'' 605" and after = "[]" and st = "state0 Map.empty"
      and sent = "[post_at ''p1'' 600]" and n = "Some (at_minute 600)"]
  by (simp add: run_defs env_bob_def feed2_def sends_only_p1_def spec_eligible_def)

section \<open>Retrying the two remote calls\<close>

lemma flaky_list_simps:
  "flaky_list 1 = Inl RemoteFailure"
  "flaky_list (Suc 0) = Inl RemoteFailure"
  "flaky_list 2 = Inr (Some [Some ''alice''])"
  by (simp_all add: flaky_list_def)

lemma flaky_feed_simps:
  "flaky_feed h 1 = Inl RemoteFailure"
  "flaky_feed h (Suc 0) = Inl RemoteFailure"
  "flaky_feed h 2 = Inr (Some feed2)"
  by (simp_all add: flaky_feed_def)

lemma get_list_members_once:
  "attempts (get_list_members gl) = 1 \<and> sleeps (get_list_members gl) = []
   \<and> outcome (get_list_members gl) = get_list_members_body (gl 1)"
proof -
  obtain hs where "get_list_members_body (gl 1) = Inr hs"
    using get_list_members_body_returns by blast
  then show ?thesis
    by (simp add: get_list_members_def retry_attempts retry_sleeps retry_outcome)
qed

lemma fetch_posts_policy:
  "1 \<le> attempts (fetch_posts gaf h) \<and> attempts (fetch_posts gaf h) \<le> 3
   \<and> length (sleeps (fetch_posts gaf h)) = attempts (fetch_posts gaf h) - 1
   \<and> list_all (\<lambda>w. 4 \<le> w \<and> w \<le> 10) (sleeps (fetch_posts gaf h))"
  by (simp add: fetch_posts_def retry_attempts retry_sleeps split: sum.splits)

text \<open>
  Claim C2 describes what the decorator is there for, and the code misses it. Both
  coroutines carry the same decorator: up to three attempts, a sleep of 4 seconds (the
  exponential wait between its bounds 4 and 10) before each further one. An exception of
  \<^verbatim>\<open>get_author_feed\<close> reaches the decorator and is retried. An exception of
  \<^verbatim>\<open>get_list\<close> is caught inside \<^verbatim>\<open>get_list_members\<close>, which returns the empty list: the
  decorator sees a normal return, so the membership call is made once, never retried,
  and a list that would answer at the second attempt is reported as empty.
\<close>

theorem C2_membership_call_never_retried:
  "attempts (get_list_members gl) = 1 \<and> sleeps (get_list_members gl) = []
   \<and> outcome (get_list_members flaky_list) = Inr []
   \<and> attempts (fetch_posts flaky_feed ''alice'') = 2
   \<and> sleeps (fetch_posts flaky_feed ''alice'') = [4]
   \<and> outcome (fetch_posts flaky_feed ''alice'') = Inr (Some feed2)
   \<and> attempts (fetch_posts gaf h) \<le> 3
   \<and> list_all (\<lambda>w. 4 \<le> w \<and> w \<le> 10) (sleeps (fetch_posts gaf h))
   \<and> log_lines (check_subscriptions_updates
                  ((simple_env [] (\<lambda>h. Inr None) (\<lambda>p. True) 611 60)\<lparr>get_list := flaky_list\<rparr>)
                  (state0 Map.empty))
       = [NoHandlesFound]"
proof -
  have a: "outcome (get_list_members flaky_list) = Inr []"
    using get_list_members_once [of flaky_list]
    by (simp add: flaky_list_simps get_list_members_body_def)
  have b: "attempts (fetch_posts flaky_feed ''alice'') = 2
         \<and> sleeps (fetch_posts flaky_feed ''alice'') = [4]
         \<and> outcome (fetch_posts flaky_feed ''alice'') = Inr (Some feed2)"
    by (simp add: fetch_posts_def retry_attempts retry_sleeps retry_outcome flaky_feed_simps)
  have c: "log_lines (check_subscriptions_updates
                  ((simple_env [] (\<lambda>h. Inr None) (\<lambda>p. True) 611 60)\<lparr>get_list := flaky_list\<rparr>)
                  (state0 Map.empty))
       = [NoHandlesFound]"
    by (simp add: check_subscriptions_updates_def a simple_env_def state0_def)
  from a b c get_list_members_once [of gl] fetch_posts_policy [of gaf h] show ?thesis
    by simp
qed

section \<open>The running newest time\<close>

lemma process_feed_skip:
  assumes "indexed_at p = Some t"
      and "current_time e - t > POST_AGE_THRESHOLD e
           \<or> (case W of None \<Rightarrow> False | Some n \<Rightarrow> t \<le> n)"
  shows "process_feed e (p # ps) W = process_feed e ps W"
  using assms by auto

lemma process_feed_pass:
  assumes "indexed_at p = Some t"
      and "\<not> current_time e - t > POST_AGE_THRESHOLD e"
      and "\<not> (case W of None \<Rightarrow> False | Some n \<Rightarrow> t \<le> n)"
  shows "process_feed e (p # ps) W =
           (if send e p then (case process_feed e ps (Some t) of (sent, r) \<Rightarrow> (p # sent, r))
            else ([], Inl DeliveryFailure))"
proof -
  have "(case W of None \<Rightarrow> Some t | Some n \<Rightarrow> if t > n then Some t else Some n) = Some t"
    using assms(3) by (auto split: option.splits)
  with assms show ?thesis by (simp add: Let_def)
qed

lemma process_feed_newest_bounds:
  "process_feed e xs W = (sent, Inr n) \<Longrightarrow> q \<in> set xs \<Longrightarrow> spec_eligible e None q \<Longrightarrow>
     \<exists>m u. n = Some m \<and> indexed_at q = Some u \<and> u \<le> m"
proof (induction xs arbitrary: W sent)
  case Nil
  then show ?case by simp
next
  case (Cons p xs)
  show ?case
  proof (cases "indexed_at p")
    case None
    with Cons.prems(1) show ?thesis by simp
  next
    case (Some t)
    show ?thesis
    proof (cases "current_time e - t > POST_AGE_THRESHOLD e
                  \<or> (case W of None \<Rightarrow> False | Some n \<Rightarrow> t \<le> n)")
      case True
      with Cons.prems(1) Some have rest: "process_feed e xs W = (sent, Inr n)"
        by (simp only: process_feed_skip [OF Some True])
      show ?thesis
      proof (cases "q = p")
        case False
        with Cons.prems(2) have "q \<in> set xs" by simp
        from Cons.IH [OF rest this Cons.prems(3)] show ?thesis .
      next
        case qp: True
        with Cons.prems(3) Some have age: "\<not> current_time e - t > POST_AGE_THRESHOLD e"
          by (simp add: spec_eligible_def)
        with True obtain w where w: "W = Some w" "t \<le> w"
          by (auto split: option.splits)
        from rest w(1) obtain m where "n = Some m" "w \<le> m"
          using process_feed_newest_mono by blast
        with w(2) Some qp show ?thesis by auto
      qed
    next
      case False
      then have pass: "\<not> current_time e - t > POST_AGE_THRESHOLD e"
          "\<not> (case W of None \<Rightarrow> False | Some n \<Rightarrow> t \<le> n)"
        by simp_all
      note step = process_feed_pass [OF Some pass, of xs]
      from Cons.prems(1) step obtain sent' where
        rest: "process_feed e xs (Some t) = (sent', Inr n)"
        by (auto split: if_splits prod.splits simp del: process_feed.simps)
      show ?thesis
      proof (cases "q = p")
        case False
        with Cons.prems(2) have "q \<in> set xs" by simp
        from Cons.IH [OF rest this Cons.prems(3)] show ?thesis .
      next
        case True
        from rest obtain m where "n = Some m" "t \<le> m"
          using process_feed_newest_mono by blast
        with Some True show ?thesis by auto
      qed
    qed
  qed
qed

lemma process_feed_newest_origin:
  "process_feed e xs W = (sent, Inr (Some m)) \<Longrightarrow>
     W = Some m \<or> (\<exists>q \<in> set xs. indexed_at q = Some m \<and> spec_eligible e None q)"
proof (induction xs arbitrary: W sent)
  case Nil
  then show ?case by simp
next
  case (Cons p xs)
  show ?case
  proof (cases "indexed_at p")
    case None
    with Cons.prems(1) show ?thesis by simp
  next
    case (Some t)
    show ?thesis
    proof (cases "current_time e - t > POST_AGE_THRESHOLD e
                  \<or> (case W of None \<Rightarrow> False | Some n \<Rightarrow> t \<le> n)")
      case True
      with Cons.prems(1) Some have rest: "process_feed e xs W = (sent, Inr (Some m))"
        by (simp only: process_feed_skip [OF Some True])
      from Cons.IH [OF rest] show ?thesis by auto
    next
      case False
      then have pass: "\<not> current_time e - t > POST_AGE_THRESHOLD e"
          "\<not> (case W of None \<Rightarrow> False | Some n \<Rightarrow> t \<le> n)"
        by simp_all
      note step = process_feed_pass [OF Some pass, of xs]
      from Cons.prems(1) step obtain sent' where
        rest: "process_feed e xs (Some t) = (sent', Inr (Some m))"
        by (auto split: if_splits prod.splits simp del: process_feed.simps)
      have pel: "spec_eligible e None p"
        using Some pass(1) by (simp add: spec_eligible_def)
      from Cons.IH [OF rest] Some pel show ?thesis by auto
    qed
  qed
qed

text \<open>
  The fate of a post at its place in the evaluation order: when the posts before it were
  processed without an exception and its own timestamp parses and its delivery
  succeeds, it is forwarded exactly when it is eligible against the stored watermark
  and strictly later than every post within the age window evaluated before it.
\<close>

lemma process_feed_position:
  assumes before: "process_feed e xs W = (sent, Inr n)"
      and parsed: "indexed_at p = Some t"
      and delivered: "send e p"
  shows "fst (process_feed e (xs @ p # ys) W) =
           sent @ (if spec_eligible e W p
                      \<and> (\<forall>q \<in> set xs. spec_eligible e None q \<longrightarrow>
                            (\<exists>u. indexed_at q = Some u \<and> u < t))
                   then p # fst (process_feed e ys (Some t))
                   else fst (process_feed e ys n))"
proof -
  let ?later = "\<forall>q \<in> set xs. spec_eligible e None q \<longrightarrow> (\<exists>u. indexed_at q = Some u \<and> u < t)"
  have app: "fst (process_feed e (xs @ p # ys) W) = sent @ fst (process_feed e (p # ys) n)"
    by (simp add: process_feed_append before split: prod.splits del: process_feed.simps)
  show ?thesis
  proof (cases "current_time e - t > POST_AGE_THRESHOLD e")
    case True
    then have "\<not> spec_eligible e W p" using parsed by (simp add: spec_eligible_def)
    moreover have "process_feed e (p # ys) n = process_feed e ys n"
      by (rule process_feed_skip [OF parsed]) (simp add: True)
    ultimately show ?thesis by (simp add: app del: process_feed.simps)
  next
    case age: False
    have test: "(case n of None \<Rightarrow> False | Some m \<Rightarrow> t \<le> m)
                  \<longleftrightarrow> \<not> (spec_eligible e W p \<and> ?later)"
    proof (cases n)
      case None
      have "W = None"
      proof (cases W)
        case (Some w)
        with before obtain m where "n = Some m" using process_feed_newest_mono by blast
        with None show ?thesis by simp
      qed simp
      moreover have ?later
      proof (intro ballI impI)
        fix q assume "q \<in> set xs" "spec_eligible e None q"
        from process_feed_newest_bounds [OF before this] None
        show "\<exists>u. indexed_at q = Some u \<and> u < t" by simp
      qed
      ultimately show ?thesis using None age parsed by (simp add: spec_eligible_def)
    next
      case (Some m)
      show ?thesis
      proof (cases "t \<le> m")
        case True
        from process_feed_newest_origin [OF before [unfolded Some]]
        have "\<not> (spec_eligible e W p \<and> ?later)"
        proof
          assume "W = Some m"
          with True parsed show ?thesis by (simp add: spec_eligible_def)
        next
          assume "\<exists>q \<in> set xs. indexed_at q = Some m \<and> spec_eligible e None q"
          with True show ?thesis by fastforce
        qed
        with Some True show ?thesis by simp
      next
        case False
        have "spec_eligible e W p"
        proof (cases W)
          case None
          with age parsed show ?thesis by (simp add: spec_eligible_def)
        next
          case w: (Some w)
          with before Some have "w \<le> m" using process_feed_newest_mono by fastforce
          with False w age parsed show ?thesis by (simp add: spec_eligible_def)
        qed
        moreover have ?later
        proof (intro ballI impI)
          fix q assume "q \<in> set xs" "spec_eligible e None q"
          from process_feed_newest_bounds [OF before this] Some
          obtain u where "indexed_at q = Some u" "u \<le> m" by auto
          with False show "\<exists>u. indexed_at q = Some u \<and> u < t" by auto
        qed
        ultimately show ?thesis using Some False by simp
      qed
    qed
    show ?thesis
    proof (cases "spec_eligible e W p \<and> ?later")
      case True
      with test have "\<not> (case n of None \<Rightarrow> False | Some m \<Rightarrow> t \<le> m)" by simp
      from process_feed_pass [OF parsed age this, of ys] delivered
      have "fst (process_feed e (p # ys) n) = p # fst (process_feed e ys (Some t))"
        by (simp split: prod.splits del: process_feed.simps)
      then show ?thesis by (simp only: app if_P [OF True])
    next
      case False
      with test have "(case n of None \<Rightarrow> False | Some m \<Rightarrow> t \<le> m)" by simp
      then have "process_feed e (p # ys) n = process_feed e ys n"
        by (intro process_feed_skip [OF parsed] disjI2)
      then show ?thesis by (simp only: app if_not_P [OF False])
    qed
  qed
qed


text \<open>
  Claim C4 as stated does not hold in its sentence on an absent watermark. Two posts
  indexed at the same minute, both within the age window, no watermark: the post
  evaluated first is forwarded and becomes the running newest time, the other one is
  not later than it and is skipped.
\<close>

theorem C4_absent_watermark_counterexample:
  "spec_eligible (env_bob feed_same_minute (\<lambda>p. True) 611) None (post_at ''x'' 605)
   \<and> post_at ''x'' 605 \<in> set (rev feed_same_minute)
   \<and> process_feed (env_bob feed_same_minute (\<lambda>p. True) 611) (rev feed_same_minute) None
       = ([post_at ''y'' 605], Inr (Some (at_minute 605)))
   \<and> post_at ''x'' 605
        \<notin> set (fst (process_feed (env_bob feed_same_minute (\<lambda>p. True) 611)
                         (rev feed_same_minute) None))"
  by (simp add: run_defs env_bob_def feed_same_minute_def spec_eligible_def)

text \<open>
  Claim C4, amended. A feed whose posts all lie at or before the watermark of the handle
  forwards nothing and leaves the watermark as it is, and only posts strictly after the
  watermark are ever forwarded. A single post within the age window passes whatever its
  timestamp when the watermark is absent, and exactly when it is strictly later when
  the watermark is present. In a feed, a post reached without an exception, with a
  parsable timestamp and a succeeding delivery, is forwarded exactly when it is within
  the age threshold, strictly later than the watermark if there is one, and strictly
  later than every post within the age threshold evaluated before it in the same pass.
\<close>

theorem C4_dedup_idempotent:
  "((\<forall>p \<in> set feed. \<forall>t. indexed_at p = Some t \<longrightarrow> t \<le> W) \<longrightarrow>
      fst (process_feed e (rev feed) (Some W)) = []
      \<and> (last_processed_times st h = Some W
           \<and> outcome (fetch_posts (get_author_feed e) h) = Inr (Some feed) \<longrightarrow>
         channel (process_handle e st h) = channel st
         \<and> last_processed_times (process_handle e st h) = last_processed_times st))
   \<and> (q \<in> set (fst (process_feed e ps (Some W))) \<longrightarrow> (\<exists>t. indexed_at q = Some t \<and> W < t))
   \<and> (indexed_at p = Some t \<and> current_time e - t \<le> POST_AGE_THRESHOLD e \<and> send e p \<longrightarrow>
        fst (process_feed e [p] None) = [p]
        \<and> (fst (process_feed e [p] (Some W)) = [p] \<longleftrightarrow> W < t))
   \<and> (process_feed e xs Wo = (sent, Inr n) \<and> indexed_at x = Some tx \<and> send e x \<longrightarrow>
        fst (process_feed e (xs @ x # ys) Wo) =
          sent @ (if spec_eligible e Wo x
                     \<and> (\<forall>q \<in> set xs. spec_eligible e None q \<longrightarrow>
                           (\<exists>u. indexed_at q = Some u \<and> u < tx))
                  then x # fst (process_feed e ys (Some tx))
                  else fst (process_feed e ys n)))"
proof (intro conjI impI)
  assume old: "\<forall>p \<in> set feed. \<forall>t. indexed_at p = Some t \<longrightarrow> t \<le> W"
  then have "\<forall>p \<in> set (rev feed). \<forall>t. indexed_at p = Some t \<longrightarrow> t \<le> W" by simp
  from process_feed_all_old [OF this, of e]
  show "fst (process_feed e (rev feed) (Some W)) = []" by auto
  assume "last_processed_times st h = Some W
           \<and> outcome (fetch_posts (get_author_feed e) h) = Inr (Some feed)"
  with old process_handle_all_old [of st h W e feed]
  show "channel (process_handle e st h) = channel st"
    and "last_processed_times (process_handle e st h) = last_processed_times st"
    by blast+
next
  assume q: "q \<in> set (fst (process_feed e ps (Some W)))"
  obtain sent r where pf: "process_feed e ps (Some W) = (sent, r)"
    by (cases "process_feed e ps (Some W)")
  with q have "q \<in> set sent" by simp
  from process_feed_sent [OF pf this] have "spec_eligible e (Some W) q" by simp
  then show "\<exists>t. indexed_at q = Some t \<and> W < t"
    by (auto simp: spec_eligible_def split: option.splits)
next
  assume a: "indexed_at p = Some t \<and> current_time e - t \<le> POST_AGE_THRESHOLD e \<and> send e p"
  then show "fst (process_feed e [p] None) = [p]"
    by (simp add: process_feed_single [of p t])
  from a show "fst (process_feed e [p] (Some W)) = [p] \<longleftrightarrow> W < t"
    by (auto simp: process_feed_single [of p t])
next
  assume b: "process_feed e xs Wo = (sent, Inr n) \<and> indexed_at x = Some tx \<and> send e x"
  then have "process_feed e xs Wo = (sent, Inr n)" "indexed_at x = Some tx" "send e x"
    by simp_all
  then show "fst (process_feed e (xs @ x # ys) Wo) =
          sent @ (if spec_eligible e Wo x
                     \<and> (\<forall>q \<in> set xs. spec_eligible e None q \<longrightarrow>
                           (\<exists>u. indexed_at q = Some u \<and> u < tx))
                  then x # fst (process_feed e ys (Some tx))
                  else fst (process_feed e ys n))"
    by (rule process_feed_position)
qed

theorem C4_dedup_idempotent_witness:
  "list_all (\<lambda>p. case indexed_at p of None \<Rightarrow> True | Some t \<Rightarrow> t \<le> at_minute 610) feed3
   \<and> fst (process_feed (env_bob feed3 (\<lambda>p. True) 615) (rev feed3) (Some (at_minute 610))) = []
   \<and> last_processed_times (state0 [''bob'' \<mapsto> at_minute 610]) ''bob'' = Some (at_minute 610)
   \<and> outcome (fetch_posts (get_author_feed (env_bob feed3 (\<lambda>p. True) 615)) ''bob'') = Inr (Some feed3)
   \<and> process_handle (env_bob feed3 (\<lambda>p. True) 615) (state0 [''bob'' \<mapsto> at_minute 610]) ''bob''
        = state0 [''bob'' \<mapsto> at_minute 610]
   \<and> post_at ''p4'' 612
        \<in> set (fst (process_feed (env_bob feed3 (\<lambda>p. True) 615) [post_at ''p4'' 612] (Some (at_minute 610))))
   \<and> at_minute 610 < at_minute 612
   \<and> fst (process_feed (env_bob feed3 (\<lambda>p. True) 615) [post_at ''p4'' 612] None) = [post_at ''p4'' 612]
   \<and> process_feed (env_bob feed3 (\<lambda>p. True) 615) [post_at ''c'' 605, post_at ''b'' 600] None
       = ([post_at ''c'' 605], Inr (Some (at_minute 605)))
   \<and> fst (process_feed (env_bob feed3 (\<lambda>p. True) 615)
             ([post_at ''c'' 605, post_at ''b'' 600] @ post_at ''a'' 610 # []) None)
       = [post_at ''c'' 605, post_at ''a'' 610]
   \<and> fst (process_feed (env_bob feed3 (\<lambda>p. True) 615)
             ([post_at ''c'' 605] @ post_at ''b'' 600 # [post_at ''a'' 610]) None)
       = [post_at ''c'' 605, post_at ''a'' 610]"
  using C4_dedup_idempotent [where feed = feed3 and W = "at_minute 610"
      and e = "env_bob feed3 (\<lambda>p. True) 615" and st = "state0 [''bob'' \<mapsto> at_minute 610]"
      and h = "''bob''" and q = "post_at ''p4'' 612" and ps = "[post_at ''p4'' 612]"
      and p = "post_at ''p4'' 612" and t = "at_minute 612"
      and xs = "[post_at ''c'' 605, post_at ''b'' 600]" and Wo = None
      and sent = "[post_at ''c'' 605]" and n = "Some (at_minute 605)"
      and x = "post_at ''a'' 610" and tx = "at_minute 610" and ys = "[]"]
    C4_dedup_idempotent [where e = "env_bob feed3 (\<lambda>p. True) 615"
      and xs = "[post_at ''c'' 605]" and Wo = None
      and sent = "[post_at ''c'' 605]" and n = "Some (at_minute 605)"
      and x = "post_at ''b'' 600" and tx = "at_minute 600" and ys = "[post_at ''a'' 610]"]
  by (simp add: run_defs env_bob_def feed3_def spec_eligible_def)

section \<open>Loading the history\<close>




end
